theory Spec2Isabelle
  imports Main "HOL-Library.AList" "HOL-Library.Sublist"
begin

section \<open>State variable notification (custom\_components/pyscript/state.py)\<close>

text \<open>
  The module keeps two dictionaries, \<open>notify\<close> and \<open>notify_var_last\<close>, and writes
  to asyncio queues it is handed. A Python \<open>dict\<close> is modelled as an association list
  in insertion order: \<open>map_of\<close> is the lookup, \<open>AList.update\<close> the item assignment
  (the value is replaced in place, a new key is appended), \<open>AList.delete\<close> the
  \<open>del\<close> statement. A queue is identified by its address; the contents of all queues
  form a store from addresses to message lists, and \<open>put\<close> appends.
\<close>

subsection \<open>Strings\<close>

text \<open>\<open>s.split(sep)\<close> for a one-character separator: one more part than separators.\<close>

fun str_split :: "char \<Rightarrow> string \<Rightarrow> string list" where
  "str_split sep [] = [[]]"
| "str_split sep (c # cs) =
     (if c = sep then [] # str_split sep cs
      else (case str_split sep cs of
              [] \<Rightarrow> [[c]]
            | p # ps \<Rightarrow> (c # p) # ps))"

text \<open>The f-string \<open>f"{parts[0]}.{parts[1]}"\<close>; the callers check the length first.\<close>

definition state_var_name :: "string list \<Rightarrow> string" where
  "state_var_name parts = parts ! 0 @ ''.'' @ parts ! 1"

subsection \<open>Data\<close>

type_synonym queue = nat

text \<open>
  The \<open>var_names\<close> argument is a list of names or one bare string; the registry stores
  it as it was passed.
\<close>

datatype var_names = NameList "string list" | Name string

text \<open>\<open>var_names if isinstance(var_names, list) else [var_names]\<close>\<close>

fun as_list :: "var_names \<Rightarrow> string list" where
  "as_list (NameList ns) = ns"
| "as_list (Name n) = [n]"

text \<open>
  Iterating the stored value, as \<open>notify_var_get\<close> does: a list gives its elements, a
  string gives its characters, each a string of length one.
\<close>

fun iterate :: "var_names \<Rightarrow> string list" where
  "iterate (NameList ns) = ns"
| "iterate (Name n) = map (\<lambda>c. [c]) n"

text \<open>The message \<open>["state", [new_vars, func_args]]\<close>.\<close>

datatype ('v, 'c) message =
  Message (msg_tag: string) (msg_vars: "(string \<times> 'v) list") (msg_args: 'c)

record ('v, 'c) state =
  notify :: "(string \<times> (queue \<times> var_names) list) list"
  notify_var_last :: "(string \<times> 'v) list"
  queues :: "queue \<Rightarrow> ('v, 'c) message list"

text \<open>\<open>__init__\<close>: both dictionaries empty; no queue has received anything.\<close>

definition init_state :: "('v, 'c) state" where
  "init_state = \<lparr>notify = [], notify_var_last = [], queues = (\<lambda>q. [])\<rparr>"

subsection \<open>notify\_add\<close>

fun notify_add_loop ::
  "('v, 'c) state \<Rightarrow> var_names \<Rightarrow> queue \<Rightarrow> string list \<Rightarrow> ('v, 'c) state" where
  "notify_add_loop st var_names queue [] = st"
| "notify_add_loop st var_names queue (var_name # rest) =
     (let parts = str_split (CHR ''.'') var_name in
      if length parts \<noteq> 2 \<and> length parts \<noteq> 3
      then notify_add_loop st var_names queue rest
      else
        let name = state_var_name parts;
            n1 = (if map_of (notify st) name = None
                  then AList.update name [] (notify st) else notify st);
            inner = (case map_of n1 name of None \<Rightarrow> [] | Some d \<Rightarrow> d)
        in notify_add_loop
             (st\<lparr>notify := AList.update name (AList.update queue var_names inner) n1\<rparr>)
             var_names queue rest)"

definition notify_add :: "('v, 'c) state \<Rightarrow> var_names \<Rightarrow> queue \<Rightarrow> ('v, 'c) state" where
  "notify_add st var_names queue = notify_add_loop st var_names queue (as_list var_names)"

subsection \<open>notify\_del\<close>

text \<open>The \<open>return\<close> on the first miss ends the loop: the rest of the list is dropped.\<close>

fun notify_del_loop :: "('v, 'c) state \<Rightarrow> queue \<Rightarrow> string list \<Rightarrow> ('v, 'c) state" where
  "notify_del_loop st queue [] = st"
| "notify_del_loop st queue (var_name # rest) =
     (let parts = str_split (CHR ''.'') var_name in
      if length parts \<noteq> 2 \<and> length parts \<noteq> 3
      then notify_del_loop st queue rest
      else
        let name = state_var_name parts in
        (case map_of (notify st) name of
           None \<Rightarrow> st
         | Some inner \<Rightarrow>
             if map_of inner queue = None then st
             else notify_del_loop
                    (st\<lparr>notify := AList.update name (AList.delete queue inner) (notify st)\<rparr>)
                    queue rest))"

definition notify_del :: "('v, 'c) state \<Rightarrow> var_names \<Rightarrow> queue \<Rightarrow> ('v, 'c) state" where
  "notify_del st var_names queue = notify_del_loop st queue (as_list var_names)"

subsection \<open>notify\_var\_get\<close>

text \<open>
  Builds a fresh dictionary of the names that have a recorded last value. The stored
  \<open>var_names\<close> is never \<open>None\<close> (\<open>notify_add\<close> would have failed on it), so the
  \<open>is not None\<close> test has one branch here.
\<close>

fun notify_var_get_loop ::
  "('v, 'c) state \<Rightarrow> string list \<Rightarrow> (string \<times> 'v) list \<Rightarrow> (string \<times> 'v) list" where
  "notify_var_get_loop st [] new_vars = new_vars"
| "notify_var_get_loop st (var_name # rest) new_vars =
     (case map_of (notify_var_last st) var_name of
        None \<Rightarrow> notify_var_get_loop st rest new_vars
      | Some v \<Rightarrow> notify_var_get_loop st rest (AList.update var_name v new_vars))"

definition notify_var_get :: "('v, 'c) state \<Rightarrow> var_names \<Rightarrow> (string \<times> 'v) list" where
  "notify_var_get st var_names = notify_var_get_loop st (iterate var_names) []"

subsection \<open>update\<close>

text \<open>\<open>d.update(other)\<close>: every item of \<open>other\<close> is assigned into \<open>d\<close>, in order.\<close>

fun dict_update :: "('k \<times> 'a) list \<Rightarrow> ('k \<times> 'a) list \<Rightarrow> ('k \<times> 'a) list" where
  "dict_update d [] = d"
| "dict_update d ((k, v) # other) = dict_update (AList.update k v d) other"

text \<open>
  First loop: record the value of every changed variable that is a key of \<open>notify\<close>
  and collect the queues registered under it.
\<close>

fun update_collect ::
  "('v, 'c) state \<Rightarrow> (string \<times> 'v) list \<Rightarrow> (queue \<times> var_names) list
   \<Rightarrow> ('v, 'c) state \<times> (queue \<times> var_names) list" where
  "update_collect st [] acc = (st, acc)"
| "update_collect st ((var_name, var_val) # rest) acc =
     (case map_of (notify st) var_name of
        None \<Rightarrow> update_collect st rest acc
      | Some inner \<Rightarrow>
          update_collect
            (st\<lparr>notify_var_last := AList.update var_name var_val (notify_var_last st)\<rparr>)
            rest (dict_update acc inner))"

text \<open>Second loop: one \<open>put\<close> for every collected queue.\<close>

fun update_put ::
  "('v, 'c) state \<Rightarrow> (queue \<times> var_names) list \<Rightarrow> 'c \<Rightarrow> ('v, 'c) state" where
  "update_put st [] func_args = st"
| "update_put st ((queue, var_names) # rest) func_args =
     update_put
       (st\<lparr>queues := (queues st)
            (queue := queues st queue @
                        [Message ''state'' (notify_var_get st var_names) func_args])\<rparr>)
       rest func_args"

definition update :: "('v, 'c) state \<Rightarrow> (string \<times> 'v) list \<Rightarrow> 'c \<Rightarrow> ('v, 'c) state" where
  "update st new_vars func_args =
     (case update_collect st new_vars [] of
        (st1, acc) \<Rightarrow> if acc \<noteq> [] then update_put st1 acc func_args else st1)"

subsection \<open>The state machine of Home Assistant\<close>

text \<open>
  Modelled from the spec: \<open>hass.states\<close> is Home Assistant's state machine, the
  VariableStore of the spec's section 6, and is not in src/. It holds one state object
  per entity (\<open>enumerate_entity_ids\<close> is \<open>async_all\<close>, the list itself);
  \<open>get\<close> returns the object of an entity or nothing, and
  \<open>set_value_and_attributes\<close> (\<open>async_set\<close>) writes the value with the attributes
  given, an absent attributes argument meaning none.
\<close>

record ('v, 'a) ha_state =
  entity_id :: string
  state :: 'v
  attributes :: "(string \<times> 'a) list"

fun states_get :: "('v, 'a) ha_state list \<Rightarrow> string \<Rightarrow> ('v, 'a) ha_state option" where
  "states_get [] name = None"
| "states_get (s # hs) name = (if entity_id s = name then Some s else states_get hs name)"

fun async_set ::
  "('v, 'a) ha_state list \<Rightarrow> string \<Rightarrow> 'v \<Rightarrow> (string \<times> 'a) list option
   \<Rightarrow> ('v, 'a) ha_state list" where
  "async_set [] name new_state attrs =
     [\<lparr>entity_id = name, state = new_state,
       attributes = (case attrs of None \<Rightarrow> [] | Some a \<Rightarrow> a)\<rparr>]"
| "async_set (s # hs) name new_state attrs =
     (if entity_id s = name
      then \<lparr>entity_id = name, state = new_state,
            attributes = (case attrs of None \<Rightarrow> [] | Some a \<Rightarrow> a)\<rparr> # hs
      else s # async_set hs name new_state attrs)"

subsection \<open>set and set\_new\<close>

text \<open>A call of the logger: its level and the name it reports.\<close>

datatype log_level = ERROR | DEBUG

type_synonym log = "(log_level \<times> string) list"

text \<open>
  \<open>State.set\<close>. The keyword arguments are a dictionary of their own; \<open>attrs\<close> is
  \<open>None\<close> when the caller gave no attributes.
\<close>

definition set_var ::
  "('v, 'a) ha_state list \<Rightarrow> string \<Rightarrow> 'v \<Rightarrow> (string \<times> 'a) list option
   \<Rightarrow> (string \<times> 'a) list \<Rightarrow> ('v, 'a) ha_state list \<times> log" where
  "set_var hs var_name val attrs kwargs =
     (if length (str_split (CHR ''.'') var_name) \<noteq> 2 then (hs, [(ERROR, var_name)])
      else
        let attrs1 =
              (if (attrs \<noteq> None \<and> attrs \<noteq> Some []) \<or> kwargs \<noteq> []
               then Some (dict_update (case attrs of None \<Rightarrow> [] | Some a \<Rightarrow> a) kwargs)
               else attrs)
        in (async_set hs var_name val attrs1, [(DEBUG, var_name)]))"

text \<open>
  \<open>State.set_new\<close>, registered as \<open>state.set\<close>. \<open>valid_entity_id\<close> is imported
  from homeassistant.core and is a parameter here.
\<close>

definition set_new ::
  "(string \<Rightarrow> bool) \<Rightarrow> ('v, 'a) ha_state list \<Rightarrow> string \<Rightarrow> 'v
   \<Rightarrow> (string \<times> 'a) list option \<Rightarrow> ('v, 'a) ha_state list \<times> log" where
  "set_new valid_entity_id hs name new_state attrs =
     (if \<not> valid_entity_id name then (hs, [(ERROR, name)])
      else if attrs = Some [] then (async_set hs name new_state None, [(DEBUG, name)])
      else
        let old_state = states_get hs name;
            old_attrs = (case old_state of None \<Rightarrow> [] | Some s \<Rightarrow> attributes s);
            updated_attrs =
              (case attrs of
                 None \<Rightarrow> old_attrs
               | Some a \<Rightarrow> if a \<noteq> [] then dict_update old_attrs a else old_attrs)
        in (async_set hs name new_state (Some updated_attrs), [(DEBUG, name)]))"

subsection \<open>completions\<close>

text \<open>\<open>str.lower\<close> on the ASCII letters; every other character is kept.\<close>

definition lower_char :: "char \<Rightarrow> char" where
  "lower_char c =
     (let n = (of_char c :: nat) in if 65 \<le> n \<and> n \<le> 90 then char_of (n + 32) else c)"

definition lower :: "string \<Rightarrow> string" where
  "lower s = map lower_char s"

text \<open>\<open>s.rfind(c)\<close>: the highest index of \<open>c\<close>, or \<open>-1\<close>.\<close>

fun rfind_from :: "char \<Rightarrow> string \<Rightarrow> int \<Rightarrow> int \<Rightarrow> int" where
  "rfind_from c [] i found = found"
| "rfind_from c (x # xs) i found = rfind_from c xs (i + 1) (if x = c then i else found)"

definition rfind :: "char \<Rightarrow> string \<Rightarrow> int" where
  "rfind c s = rfind_from c s 0 (- 1)"

fun completions_attrs :: "string \<Rightarrow> string \<Rightarrow> string list \<Rightarrow> string set \<Rightarrow> string set" where
  "completions_attrs name attr_root [] words = words"
| "completions_attrs name attr_root (attr_name # rest) words =
     completions_attrs name attr_root rest
       (if prefix attr_root (lower attr_name)
        then insert (name @ ''.'' @ attr_name) words else words)"

fun completions_names :: "string \<Rightarrow> ('v, 'a) ha_state list \<Rightarrow> string set \<Rightarrow> string set" where
  "completions_names root [] words = words"
| "completions_names root (name # rest) words =
     completions_names root rest
       (if prefix root (lower (entity_id name))
        then insert (entity_id name) words else words)"

text \<open>
  In the branch of two periods \<open>rfind\<close> is not negative, so the slices
  \<open>root[0:last_period]\<close> and \<open>root[last_period + 1:]\<close> are \<open>take\<close> and \<open>drop\<close>.
\<close>

definition completions :: "('v, 'a) ha_state list \<Rightarrow> string \<Rightarrow> string set" where
  "completions hs root =
     (let num_period = count_list root (CHR ''.'') in
      if num_period = 2 then
        let last_period = rfind (CHR ''.'') root;
            name = take (nat last_period) root
        in (case states_get hs name of
              None \<Rightarrow> {}
            | Some val \<Rightarrow>
                let attr_root = drop (nat (last_period + 1)) root
                in completions_attrs name attr_root (map fst (attributes val)) {})
      else if num_period < 2 then completions_names root hs {}
      else {})"

subsection \<open>Observations on a state\<close>

text \<open>A name the loops of \<open>notify_add\<close> and \<open>notify_del\<close> do not skip.\<close>

definition is_var_name :: "string \<Rightarrow> bool" where
  "is_var_name n \<longleftrightarrow>
     length (str_split (CHR ''.'') n) = 2 \<or> length (str_split (CHR ''.'') n) = 3"

text \<open>The key of \<open>notify\<close> such a name is filed under.\<close>

definition subscription_key :: "string \<Rightarrow> string" where
  "subscription_key n = state_var_name (str_split (CHR ''.'') n)"

text \<open>\<open>notify[name][queue]\<close>, when both keys are present.\<close>

definition registration :: "('v, 'c) state \<Rightarrow> string \<Rightarrow> queue \<Rightarrow> var_names option" where
  "registration st name queue =
     (case map_of (notify st) name of None \<Rightarrow> None | Some inner \<Rightarrow> map_of inner queue)"

text \<open>The items of \<open>notify[name]\<close> whose key is the queue.\<close>

definition entries :: "('v, 'c) state \<Rightarrow> string \<Rightarrow> queue \<Rightarrow> (queue \<times> var_names) list" where
  "entries st name queue =
     (case map_of (notify st) name of
        None \<Rightarrow> []
      | Some inner \<Rightarrow> filter (\<lambda>e. fst e = queue) inner)"

text \<open>
  What holds of every state the operations build from \<open>init_state\<close>: each dictionary
  has a key once, and the keys of \<open>notify\<close> and of \<open>notify_var_last\<close> have one
  period, being made of the first two parts of a split name.
\<close>

definition state_inv :: "('v, 'c) state \<Rightarrow> bool" where
  "state_inv st \<longleftrightarrow>
     distinct (map fst (notify st)) \<and>
     distinct (map fst (notify_var_last st)) \<and>
     (\<forall>e \<in> set (notify st).
        distinct (map fst (snd e)) \<and> count_list (fst e) (CHR ''.'') = 1) \<and>
     (\<forall>e \<in> set (notify_var_last st). count_list (fst e) (CHR ''.'') = 1)"

section \<open>Properties\<close>

subsection \<open>Splitting names\<close>

lemma str_split_nonempty: "str_split sep s \<noteq> []"
  by (induction s) (auto split: list.splits)

lemma length_str_split: "length (str_split sep s) = Suc (count_list s sep)"
  by (induction s) (auto split: list.splits simp: str_split_nonempty)

lemma str_split_no_sep: "p \<in> set (str_split sep s) \<Longrightarrow> sep \<notin> set p"
  by (induction s arbitrary: p) (auto split: list.splits if_splits)

lemma str_split_single: "sep \<notin> set s \<Longrightarrow> str_split sep s = [s]"
  by (induction s) (auto split: list.splits)

lemma str_split_join2:
  "length (str_split sep s) = 2 \<Longrightarrow> str_split sep s ! 0 @ [sep] @ str_split sep s ! 1 = s"
proof (induction s)
  case Nil
  then show ?case by simp
next
  case (Cons c cs)
  show ?case
  proof (cases "c = sep")
    case True
    with Cons.prems have "count_list cs sep = 0" by (simp add: length_str_split)
    then have "str_split sep cs = [cs]"
      by (simp add: count_list_0_iff str_split_single)
    with True show ?thesis by simp
  next
    case False
    with Cons show ?thesis
      by (auto split: list.splits)
  qed
qed

lemma subscription_key_two_part:
  "length (str_split (CHR ''.'') k) = 2 \<Longrightarrow> subscription_key k = k"
  using str_split_join2 [of "CHR ''.''" k] by (simp add: subscription_key_def state_var_name_def)

lemma count_subscription_key:
  assumes "is_var_name n"
  shows "count_list (subscription_key n) (CHR ''.'') = 1"
proof -
  let ?ps = "str_split (CHR ''.'') n"
  from assms have len: "2 \<le> length ?ps" by (auto simp: is_var_name_def)
  have "?ps ! 0 \<in> set ?ps" using len by (intro nth_mem) linarith
  moreover have "?ps ! 1 \<in> set ?ps" using len by (intro nth_mem) linarith
  ultimately have "CHR ''.'' \<notin> set (?ps ! 0)" "CHR ''.'' \<notin> set (?ps ! 1)"
    by (auto dest: str_split_no_sep)
  then show ?thesis
    by (simp add: subscription_key_def state_var_name_def count_list_0_iff)
qed

subsection \<open>The registry after notify\_add and notify\_del\<close>

lemma registration_add_step:
  "registration
     (st\<lparr>notify :=
         AList.update name
           (AList.update queue var_names
              (case map_of (if map_of (notify st) name = None
                            then AList.update name [] (notify st) else notify st) name of
                 None \<Rightarrow> [] | Some d \<Rightarrow> d))
           (if map_of (notify st) name = None
            then AList.update name [] (notify st) else notify st)\<rparr>) key q =
   (if key = name \<and> q = queue then Some var_names else registration st key q)"
  by (auto simp: registration_def update_conv' split: option.splits)

lemma notify_add_loop_other:
  "notify_var_last (notify_add_loop st vn q ns) = notify_var_last st"
  "queues (notify_add_loop st vn q ns) = queues st"
  by (induction st vn q ns rule: notify_add_loop.induct; simp add: Let_def)+

lemma registration_add_loop:
  "registration (notify_add_loop st vn q ns) key q' =
     (if q' = q \<and> (\<exists>n \<in> set ns. is_var_name n \<and> subscription_key n = key)
      then Some vn else registration st key q')"
proof (induction st vn q ns rule: notify_add_loop.induct)
  case (1 st var_names queue)
  then show ?case by simp
next
  case (2 st var_names queue var_name rest)
  show ?case
  proof (cases "is_var_name var_name")
    case False
    with 2 show ?thesis by (simp add: is_var_name_def Let_def)
  next
    case True
    then have ok: "\<not> (length (str_split (CHR ''.'') var_name) \<noteq> 2 \<and>
                      length (str_split (CHR ''.'') var_name) \<noteq> 3)"
      by (simp add: is_var_name_def)
    show ?thesis
      using True
      apply (subst notify_add_loop.simps)
      apply (simp only: Let_def ok if_False)
      apply (subst 2(2) [OF refl ok refl refl refl])
      apply (simp only: registration_add_step)
      apply (auto simp: subscription_key_def)
      done
  qed
qed

lemma set_update_subset: "set (AList.update k v al) \<subseteq> insert (k, v) (set al)"
  by (induction al) auto

lemma state_inv_init: "state_inv init_state"
  by (simp add: state_inv_def init_state_def)

lemma state_inv_notify_upd:
  assumes "state_inv st" and "distinct (map fst inner)" and "count_list name (CHR ''.'') = 1"
  shows "state_inv (st\<lparr>notify := AList.update name inner (notify st)\<rparr>)"
proof -
  have "\<forall>e \<in> set (AList.update name inner (notify st)).
          distinct (map fst (snd e)) \<and> count_list (fst e) (CHR ''.'') = 1"
    using assms set_update_subset [of name inner "notify st"]
    by (auto simp: state_inv_def)
  with assms(1) show ?thesis
    by (simp add: state_inv_def distinct_update)
qed

lemma state_inv_inner:
  "state_inv st \<Longrightarrow> map_of (notify st) name = Some inner \<Longrightarrow>
   distinct (map fst inner) \<and> count_list name (CHR ''.'') = 1"
  by (auto simp: state_inv_def dest!: map_of_SomeD)

lemma state_inv_add_loop:
  "state_inv st \<Longrightarrow> state_inv (notify_add_loop st vn q ns)"
proof (induction st vn q ns rule: notify_add_loop.induct)
  case (1 st var_names queue)
  then show ?case by simp
next
  case (2 st var_names queue var_name rest)
  show ?case
  proof (cases "is_var_name var_name")
    case False
    with 2 show ?thesis by (simp add: is_var_name_def Let_def)
  next
    case True
    then have ok: "\<not> (length (str_split (CHR ''.'') var_name) \<noteq> 2 \<and>
                      length (str_split (CHR ''.'') var_name) \<noteq> 3)"
      by (simp add: is_var_name_def)
    let ?name = "state_var_name (str_split (CHR ''.'') var_name)"
    let ?n1 = "if map_of (notify st) ?name = None
               then AList.update ?name [] (notify st) else notify st"
    let ?inner = "case map_of ?n1 ?name of None \<Rightarrow> [] | Some d \<Rightarrow> d"
    have cnt: "count_list ?name (CHR ''.'') = 1"
      using count_subscription_key [OF True] by (simp add: subscription_key_def)
    have inv1: "state_inv (st\<lparr>notify := ?n1\<rparr>)"
      using state_inv_notify_upd [OF "2.prems" _ cnt, of "[]"] "2.prems" by simp
    have "distinct (map fst ?inner)"
      using state_inv_inner [OF inv1, of ?name] by (auto split: option.splits)
    then have "distinct (map fst (AList.update queue var_names ?inner))"
      by (rule distinct_update)
    from state_inv_notify_upd [OF inv1 this cnt]
    have "state_inv (st\<lparr>notify := AList.update ?name (AList.update queue var_names ?inner) ?n1\<rparr>)"
      by simp
    from "2.IH"(2) [OF refl ok refl refl refl this] show ?thesis
      by (subst notify_add_loop.simps) (simp only: Let_def ok if_False)
  qed
qed

lemma state_inv_notify_add: "state_inv st \<Longrightarrow> state_inv (notify_add st vn q)"
  by (simp add: notify_add_def state_inv_add_loop)

lemma state_inv_del_loop:
  "state_inv st \<Longrightarrow> state_inv (notify_del_loop st q ns)"
proof (induction st q ns rule: notify_del_loop.induct)
  case (1 st queue)
  then show ?case by simp
next
  case (2 st queue var_name rest)
  show ?case
  proof (cases "is_var_name var_name")
    case False
    with 2 show ?thesis by (simp add: is_var_name_def Let_def)
  next
    case True
    then have ok: "\<not> (length (str_split (CHR ''.'') var_name) \<noteq> 2 \<and>
                      length (str_split (CHR ''.'') var_name) \<noteq> 3)"
      by (simp add: is_var_name_def)
    let ?name = "state_var_name (str_split (CHR ''.'') var_name)"
    show ?thesis
    proof (cases "map_of (notify st) ?name")
      case None
      with "2.prems" ok show ?thesis by (auto simp: Let_def)
    next
      case (Some inner)
      show ?thesis
      proof (cases "map_of inner queue = None")
        case True
        with Some "2.prems" ok show ?thesis by (auto simp: Let_def)
      next
        case False
        from state_inv_inner [OF "2.prems" Some]
        have "distinct (map fst (AList.delete queue inner))" "count_list ?name (CHR ''.'') = 1"
          by (simp_all add: distinct_delete)
        from state_inv_notify_upd [OF "2.prems" this]
        have "state_inv (st\<lparr>notify := AList.update ?name (AList.delete queue inner) (notify st)\<rparr>)" .
        from "2.IH"(2) [OF refl ok refl Some False this] show ?thesis
          using Some False ok by (auto simp: Let_def)
      qed
    qed
  qed
qed

lemma state_inv_notify_del: "state_inv st \<Longrightarrow> state_inv (notify_del st vn q)"
  by (simp add: notify_del_def state_inv_del_loop)

subsection \<open>The two loops of update\<close>

lemma notify_var_get_loop_queues:
  "notify_var_get_loop (st\<lparr>queues := qs\<rparr>) ns nv = notify_var_get_loop st ns nv"
  by (induction ns arbitrary: nv) (auto split: option.splits)

lemma notify_var_get_queues:
  "notify_var_get (st\<lparr>queues := qs\<rparr>) vn = notify_var_get st vn"
  by (simp add: notify_var_get_def notify_var_get_loop_queues)

lemma update_put_other:
  "notify (update_put st acc fa) = notify st"
  "notify_var_last (update_put st acc fa) = notify_var_last st"
  by (induction st acc fa rule: update_put.induct; simp)+

lemma update_put_queues:
  "queues (update_put st acc fa) q =
     queues st q @
     map (\<lambda>e. Message ''state'' (notify_var_get st (snd e)) fa) (filter (\<lambda>e. fst e = q) acc)"
  by (induction st acc fa rule: update_put.induct) (simp_all add: notify_var_get_queues)

lemma filter_key_distinct:
  "distinct (map fst al) \<Longrightarrow>
   filter (\<lambda>e. fst e = q) al = (case map_of al q of None \<Rightarrow> [] | Some v \<Rightarrow> [(q, v)])"
proof (induction al)
  case Nil
  then show ?case by simp
next
  case (Cons a al)
  then show ?case
    by (cases a) (auto split: option.splits simp: map_of_eq_None_iff image_iff filter_empty_conv)
qed

lemma dict_update_keys: "fst ` set (dict_update d other) = fst ` set d \<union> fst ` set other"
  by (induction d other rule: dict_update.induct) (auto simp: dom_update)

lemma dict_update_distinct:
  "distinct (map fst d) \<Longrightarrow> distinct (map fst (dict_update d other))"
  by (induction d other rule: dict_update.induct) (auto simp: distinct_update)

lemma map_of_dict_update:
  "distinct (map fst other) \<Longrightarrow>
   map_of (dict_update d other) q =
     (case map_of other q of None \<Rightarrow> map_of d q | Some v \<Rightarrow> Some v)"
proof (induction d other rule: dict_update.induct)
  case (1 d)
  then show ?case by simp
next
  case (2 d k v other)
  then show ?case
    by (auto simp: update_conv' map_of_eq_None_iff image_iff split: option.splits)
qed

lemma update_collect_other:
  "notify (fst (update_collect st nv acc)) = notify st"
  "queues (fst (update_collect st nv acc)) = queues st"
  by (induction st nv acc rule: update_collect.induct; simp split: option.splits)+

lemma update_eq_put:
  "update st nv fa =
     update_put (fst (update_collect st nv [])) (snd (update_collect st nv [])) fa"
  by (cases "update_collect st nv []") (auto simp: update_def)

lemma update_notify: "notify (update st nv fa) = notify st"
  by (simp add: update_eq_put update_put_other update_collect_other)

lemma update_collect_inv:
  "state_inv st \<Longrightarrow> state_inv (fst (update_collect st nv acc))"
proof (induction st nv acc rule: update_collect.induct)
  case (1 st acc)
  then show ?case by simp
next
  case (2 st var_name var_val rest acc)
  show ?case
  proof (cases "map_of (notify st) var_name")
    case None
    with 2 show ?thesis by simp
  next
    case (Some inner)
    from state_inv_inner [OF "2.prems" Some]
    have cnt: "count_list var_name (CHR ''.'') = 1" by simp
    have "\<forall>e \<in> set (AList.update var_name var_val (notify_var_last st)).
            count_list (fst e) (CHR ''.'') = 1"
      using "2.prems" cnt set_update_subset [of var_name var_val "notify_var_last st"]
      by (auto simp: state_inv_def)
    with "2.prems"
    have "state_inv (st\<lparr>notify_var_last := AList.update var_name var_val (notify_var_last st)\<rparr>)"
      by (simp add: state_inv_def distinct_update)
    with "2.IH"(2) [OF Some] Some show ?thesis by simp
  qed
qed

lemma state_inv_queues: "state_inv (st\<lparr>queues := qs\<rparr>) = state_inv st"
  by (simp add: state_inv_def)

lemma state_inv_update_put: "state_inv st \<Longrightarrow> state_inv (update_put st acc fa)"
  by (induction st acc fa rule: update_put.induct) (simp_all add: state_inv_queues)

lemma state_inv_update: "state_inv st \<Longrightarrow> state_inv (update st nv fa)"
  by (simp add: update_eq_put state_inv_update_put update_collect_inv)

lemma update_single:
  "update st [(k, v)] fa =
     (case map_of (notify st) k of
        None \<Rightarrow> st
      | Some inner \<Rightarrow>
          update_put (st\<lparr>notify_var_last := AList.update k v (notify_var_last st)\<rparr>)
            (dict_update [] inner) fa)"
  by (simp add: update_eq_put split: option.splits)

subsection \<open>One changed variable\<close>

lemma notify_add_other:
  "notify_var_last (notify_add st vn q) = notify_var_last st"
  "queues (notify_add st vn q) = queues st"
  by (simp_all add: notify_add_def notify_add_loop_other)

lemma registration_notify_add:
  "registration (notify_add st vn q) key q' =
     (if q' = q \<and> (\<exists>n \<in> set (as_list vn). is_var_name n \<and> subscription_key n = key)
      then Some vn else registration st key q')"
  by (simp add: notify_add_def registration_add_loop)

text \<open>What one queue receives from an update of one variable.\<close>

lemma update_single_queue:
  assumes "state_inv st"
  shows "queues (update st [(k, v)] fa) q =
           queues st q @
           (case registration st k q of
              None \<Rightarrow> []
            | Some vn \<Rightarrow>
                [Message ''state''
                   (notify_var_get
                      (st\<lparr>notify_var_last := AList.update k v (notify_var_last st)\<rparr>) vn) fa])"
proof (cases "map_of (notify st) k")
  case None
  then show ?thesis by (simp add: update_single registration_def)
next
  case (Some inner)
  from state_inv_inner [OF assms Some] have d: "distinct (map fst inner)" by simp
  then have "distinct (map fst (dict_update [] inner))"
    by (simp add: dict_update_distinct)
  moreover have "map_of (dict_update [] inner) q = map_of inner q"
    using d by (simp add: map_of_dict_update split: option.splits)
  ultimately show ?thesis
    using Some
    by (simp add: update_single registration_def update_put_queues filter_key_distinct
             split: option.splits)
qed

lemma update_single_last:
  "notify_var_last (update st [(k, v)] fa) =
     (if map_of (notify st) k = None then notify_var_last st
      else AList.update k v (notify_var_last st))"
  by (auto simp: update_single update_put_other split: option.splits)

lemma notify_var_get_single:
  "notify_var_get st (NameList [k]) =
     (case map_of (notify_var_last st) k of None \<Rightarrow> [] | Some v \<Rightarrow> [(k, v)])"
  by (simp add: notify_var_get_def split: option.splits)

subsection \<open>Delivery\<close>

text \<open>
  C1: for a name \<open>k\<close> of two parts, after \<open>notify_add([k], c)\<close> the call
  \<open>update({k: v}, ctx)\<close> puts one message on \<open>c\<close>: the queue holds what it held
  before and then the message whose dictionary is \<open>{k: v}\<close> and whose payload is
  \<open>ctx\<close>.
\<close>

theorem update_after_add_delivers_once:
  assumes "state_inv st" and "length (str_split (CHR ''.'') k) = 2"
  shows "queues (update (notify_add st (NameList [k]) c) [(k, v)] ctx) c =
           queues st c @ [Message ''state'' [(k, v)] ctx]"
proof -
  let ?st1 = "notify_add st (NameList [k]) c"
  from assms(2) have vk: "is_var_name k" and key: "subscription_key k = k"
    by (simp_all add: is_var_name_def subscription_key_two_part)
  have inv1: "state_inv ?st1" using assms(1) by (rule state_inv_notify_add)
  have reg: "registration ?st1 k c = Some (NameList [k])"
    using vk key by (simp add: registration_notify_add)
  show ?thesis
    by (simp add: update_single_queue [OF inv1] reg notify_var_get_single update_conv'
          notify_add_other)
qed

theorem update_after_add_delivers_once_witness:
  "state_inv (init_state :: (int, unit) state) \<and>
   length (str_split (CHR ''.'') ''light.kitchen'') = 2 \<and>
   queues (update (notify_add (init_state :: (int, unit) state) (NameList [''light.kitchen'']) 0)
             [(''light.kitchen'', 1)] ()) 0 =
     [Message ''state'' [(''light.kitchen'', 1)] ()]"
proof -
  have h1: "state_inv (init_state :: (int, unit) state)" by (rule state_inv_init)
  have h2: "length (str_split (CHR ''.'') ''light.kitchen'') = 2" by simp
  have "queues (init_state :: (int, unit) state) 0 = []" by (simp add: init_state_def)
  with update_after_add_delivers_once [OF h1 h2, of 0 1 "()"] h1 h2 show ?thesis by simp
qed

lemma registration_update: "registration (update st nv fa) key q = registration st key q"
  by (simp add: registration_def update_notify)

lemma registration_SomeD:
  "registration st key q = Some vn \<Longrightarrow>
   \<exists>inner. map_of (notify st) key = Some inner \<and> map_of inner q = Some vn"
  by (auto simp: registration_def split: option.splits)

lemma update_pair:
  assumes "map_of (notify st) k1 = Some i1" and "map_of (notify st) k2 = Some i2"
  shows "update st [(k1, v1), (k2, v2)] fa =
           update_put
             (st\<lparr>notify_var_last :=
                   AList.update k2 v2 (AList.update k1 v1 (notify_var_last st))\<rparr>)
             (dict_update (dict_update [] i1) i2) fa"
  using assms by (simp add: update_eq_put)

lemma notify_var_get_pair:
  assumes "map_of (notify_var_last st) k1 = Some v1"
    and "map_of (notify_var_last st) k2 = Some v2" and "k1 \<noteq> k2"
  shows "notify_var_get st (NameList [k1, k2]) = [(k1, v1), (k2, v2)]"
  using assms by (simp add: notify_var_get_def)

text \<open>
  C2: two distinct names of two parts registered by one \<open>notify_add([k1, k2], c)\<close>:
  the call \<open>update({k1: v1, k2: v2}, ctx)\<close> puts one message on \<open>c\<close>, not two,
  and its dictionary holds both \<open>k1: v1\<close> and \<open>k2: v2\<close>.
\<close>

theorem update_batch_one_message:
  assumes "state_inv st"
    and "length (str_split (CHR ''.'') k1) = 2" and "length (str_split (CHR ''.'') k2) = 2"
    and "k1 \<noteq> k2"
  shows "queues (update (notify_add st (NameList [k1, k2]) c) [(k1, v1), (k2, v2)] ctx) c =
           queues st c @ [Message ''state'' [(k1, v1), (k2, v2)] ctx]"
proof -
  let ?vn = "NameList [k1, k2]"
  let ?st1 = "notify_add st ?vn c"
  from assms(2,3) have keys: "subscription_key k1 = k1" "subscription_key k2 = k2"
    and valid: "is_var_name k1" "is_var_name k2"
    by (simp_all add: is_var_name_def subscription_key_two_part)
  have inv1: "state_inv ?st1" using assms(1) by (rule state_inv_notify_add)
  have "registration ?st1 k1 c = Some ?vn"
    using valid keys by (auto simp: registration_notify_add)
  then obtain i1 where i1: "map_of (notify ?st1) k1 = Some i1" "map_of i1 c = Some ?vn"
    by (auto dest: registration_SomeD)
  have "registration ?st1 k2 c = Some ?vn"
    using valid keys by (auto simp: registration_notify_add)
  then obtain i2 where i2: "map_of (notify ?st1) k2 = Some i2" "map_of i2 c = Some ?vn"
    by (auto dest: registration_SomeD)
  let ?acc = "dict_update (dict_update [] i1) i2"
  let ?st2 = "?st1\<lparr>notify_var_last :=
                AList.update k2 v2 (AList.update k1 v1 (notify_var_last ?st1))\<rparr>"
  have "distinct (map fst i2)" using state_inv_inner [OF inv1 i2(1)] by simp
  then have acc_c: "map_of ?acc c = Some ?vn"
    using i2(2) by (simp add: map_of_dict_update)
  have "distinct (map fst ?acc)" by (simp add: dict_update_distinct)
  then have one: "filter (\<lambda>e. fst e = c) ?acc = [(c, ?vn)]"
    using acc_c by (simp add: filter_key_distinct)
  have get: "notify_var_get ?st2 ?vn = [(k1, v1), (k2, v2)]"
    using assms(4) by (intro notify_var_get_pair) (simp_all add: update_conv')
  have "queues (update ?st1 [(k1, v1), (k2, v2)] ctx) c =
          queues ?st2 c @ [Message ''state'' (notify_var_get ?st2 ?vn) ctx]"
    by (simp add: update_pair [OF i1(1) i2(1)] update_put_queues one)
  with get show ?thesis
    by (simp add: notify_add_other)
qed

theorem update_batch_one_message_witness:
  "state_inv (init_state :: (int, unit) state) \<and>
   length (str_split (CHR ''.'') ''light.kitchen'') = 2 \<and>
   length (str_split (CHR ''.'') ''sensor.door'') = 2 \<and>
   ''light.kitchen'' \<noteq> ''sensor.door'' \<and>
   queues (update (notify_add (init_state :: (int, unit) state)
                     (NameList [''light.kitchen'', ''sensor.door'']) 0)
             [(''light.kitchen'', 1), (''sensor.door'', 2)] ()) 0 =
     [Message ''state'' [(''light.kitchen'', 1), (''sensor.door'', 2)] ()]"
proof -
  have h1: "state_inv (init_state :: (int, unit) state)" by (rule state_inv_init)
  have h2: "length (str_split (CHR ''.'') ''light.kitchen'') = 2" by simp
  have h3: "length (str_split (CHR ''.'') ''sensor.door'') = 2" by simp
  have h4: "''light.kitchen'' \<noteq> ''sensor.door''" by simp
  have "queues (init_state :: (int, unit) state) 0 = []" by (simp add: init_state_def)
  with update_batch_one_message [OF h1 h2 h3 h4, of 0 1 2 "()"] h1 h2 h3 h4
  show ?thesis by simp
qed

text \<open>
  C3: after \<open>notify_add([k], c)\<close>, \<open>update({k: v1}, ctx1)\<close> and
  \<open>update({k: v2}, ctx2)\<close> the last value recorded for \<open>k\<close> is \<open>v2\<close>, and
  the message the first update put on \<open>c\<close> is still the one carrying \<open>v1\<close>: it
  is the first of the two messages the queue has received.
\<close>

theorem last_value_after_two_updates:
  assumes "state_inv st" and "length (str_split (CHR ''.'') k) = 2"
  shows "let st1 = notify_add st (NameList [k]) c;
             st2 = update st1 [(k, v1)] ctx1;
             st3 = update st2 [(k, v2)] ctx2
         in queues st2 c = queues st c @ [Message ''state'' [(k, v1)] ctx1] \<and>
            map_of (notify_var_last st3) k = Some v2 \<and>
            queues st3 c =
              queues st c @ [Message ''state'' [(k, v1)] ctx1, Message ''state'' [(k, v2)] ctx2]"
proof -
  let ?st1 = "notify_add st (NameList [k]) c"
  let ?st2 = "update ?st1 [(k, v1)] ctx1"
  let ?st3 = "update ?st2 [(k, v2)] ctx2"
  from assms(2) have vk: "is_var_name k" and key: "subscription_key k = k"
    by (simp_all add: is_var_name_def subscription_key_two_part)
  have inv1: "state_inv ?st1" using assms(1) by (rule state_inv_notify_add)
  then have inv2: "state_inv ?st2" by (rule state_inv_update)
  have reg1: "registration ?st1 k c = Some (NameList [k])"
    using vk key by (simp add: registration_notify_add)
  then have reg2: "registration ?st2 k c = Some (NameList [k])"
    by (simp add: registration_update)
  from reg2 obtain inner where present: "map_of (notify ?st2) k = Some inner"
    by (auto dest: registration_SomeD)
  have q2: "queues ?st2 c = queues st c @ [Message ''state'' [(k, v1)] ctx1]"
    by (simp add: update_single_queue [OF inv1] reg1 notify_var_get_single update_conv'
          notify_add_other)
  have q3: "queues ?st3 c = queues ?st2 c @ [Message ''state'' [(k, v2)] ctx2]"
    by (simp add: update_single_queue [OF inv2] reg2 notify_var_get_single update_conv')
  have last: "map_of (notify_var_last ?st3) k = Some v2"
    using present by (subst update_single_last) (simp add: update_conv')
  from q2 q3 last show ?thesis by (simp add: Let_def)
qed

theorem last_value_after_two_updates_witness:
  "state_inv (init_state :: (int, nat) state) \<and>
   length (str_split (CHR ''.'') ''light.kitchen'') = 2 \<and>
   (let st1 = notify_add (init_state :: (int, nat) state) (NameList [''light.kitchen'']) 0;
        st2 = update st1 [(''light.kitchen'', 1)] 10;
        st3 = update st2 [(''light.kitchen'', 2)] 20
    in queues st2 0 = [Message ''state'' [(''light.kitchen'', 1)] 10] \<and>
       map_of (notify_var_last st3) ''light.kitchen'' = Some 2 \<and>
       queues st3 0 =
         [Message ''state'' [(''light.kitchen'', 1)] 10,
          Message ''state'' [(''light.kitchen'', 2)] 20])"
proof -
  have h1: "state_inv (init_state :: (int, nat) state)" by (rule state_inv_init)
  have h2: "length (str_split (CHR ''.'') ''light.kitchen'') = 2" by simp
  have "queues (init_state :: (int, nat) state) 0 = []" by (simp add: init_state_def)
  with last_value_after_two_updates [OF h1 h2, of 0 1 10 2 20] h1 h2
  show ?thesis by (simp add: Let_def)
qed

lemma is_var_name_count:
  "is_var_name n \<longleftrightarrow> count_list n (CHR ''.'') = 1 \<or> count_list n (CHR ''.'') = 2"
  by (auto simp: is_var_name_def length_str_split)

lemma notify_key_count:
  "state_inv st \<Longrightarrow> count_list k (CHR ''.'') \<noteq> 1 \<Longrightarrow> map_of (notify st) k = None"
  by (cases "map_of (notify st) k") (auto dest: state_inv_inner)

lemma notify_del_other:
  "notify_var_last (notify_del st vn q) = notify_var_last st"
  "queues (notify_del st vn q) = queues st"
proof -
  have "notify_var_last (notify_del_loop st q ns) = notify_var_last st" for ns
    by (induction st q ns rule: notify_del_loop.induct)
       (auto simp: Let_def split: option.splits)
  moreover have "queues (notify_del_loop st q ns) = queues st" for ns
    by (induction st q ns rule: notify_del_loop.induct)
       (auto simp: Let_def split: option.splits)
  ultimately show "notify_var_last (notify_del st vn q) = notify_var_last st"
    "queues (notify_del st vn q) = queues st"
    by (simp_all add: notify_del_def)
qed

lemma registration_del_single:
  assumes "is_var_name n"
  shows "registration (notify_del st (NameList [n]) q) (subscription_key n) q = None"
proof -
  let ?name = "state_var_name (str_split (CHR ''.'') n)"
  from assms have ok: "\<not> (length (str_split (CHR ''.'') n) \<noteq> 2 \<and>
                          length (str_split (CHR ''.'') n) \<noteq> 3)"
    by (simp add: is_var_name_def)
  show ?thesis
  proof (cases "map_of (notify st) ?name")
    case None
    with ok show ?thesis
      by (auto simp: notify_del_def Let_def registration_def subscription_key_def)
  next
    case (Some inner)
    with ok show ?thesis
      by (auto simp: notify_del_def Let_def registration_def subscription_key_def
            update_conv' delete_conv')
  qed
qed

text \<open>
  C4: when \<open>c\<close> has no registration under the subscription key of \<open>k\<close>, the
  call \<open>update({k: v}, ctx)\<close> puts nothing on \<open>c\<close>; that is the case in
  particular after \<open>notify_del([k], c)\<close> has followed \<open>notify_add([k], c)\<close>.
\<close>

theorem update_unregistered_delivers_nothing:
  assumes "state_inv st" and "is_var_name k"
  shows "(registration st (subscription_key k) c = None \<longrightarrow>
            queues (update st [(k, v)] ctx) c = queues st c) \<and>
         queues (update (notify_del (notify_add st (NameList [k]) c) (NameList [k]) c)
                   [(k, v)] ctx) c = queues st c"
proof -
  have none: "queues (update s [(k, v)] ctx) c = queues s c"
    if inv: "state_inv s" and reg: "registration s (subscription_key k) c = None" for s :: "('a, 'b) state"
  proof (cases "length (str_split (CHR ''.'') k) = 2")
    case True
    then have "subscription_key k = k" by (rule subscription_key_two_part)
    with reg show ?thesis by (simp add: update_single_queue [OF inv])
  next
    case False
    with assms(2) have "count_list k (CHR ''.'') \<noteq> 1"
      by (simp add: is_var_name_def length_str_split)
    with inv have "map_of (notify s) k = None" by (rule notify_key_count)
    then show ?thesis by (simp add: update_single)
  qed
  let ?s = "notify_del (notify_add st (NameList [k]) c) (NameList [k]) c"
  have "state_inv ?s"
    using assms(1) by (intro state_inv_notify_del state_inv_notify_add)
  moreover have "registration ?s (subscription_key k) c = None"
    using assms(2) by (rule registration_del_single)
  ultimately have "queues (update ?s [(k, v)] ctx) c = queues ?s c" by (rule none)
  then have "queues (update ?s [(k, v)] ctx) c = queues st c"
    by (simp add: notify_del_other notify_add_other)
  with none [OF assms(1)] show ?thesis by simp
qed

theorem update_unregistered_delivers_nothing_witness:
  "state_inv (notify_add (init_state :: (int, unit) state) (NameList [''light.kitchen'']) 1) \<and>
   is_var_name ''light.kitchen'' \<and>
   registration (notify_add (init_state :: (int, unit) state) (NameList [''light.kitchen'']) 1)
     (subscription_key ''light.kitchen'') 0 = None \<and>
   queues (update (notify_add (init_state :: (int, unit) state) (NameList [''light.kitchen'']) 1)
             [(''light.kitchen'', 5)] ()) 0 = []"
proof -
  let ?st = "notify_add (init_state :: (int, unit) state) (NameList [''light.kitchen'']) 1"
  have h1: "state_inv ?st" by (intro state_inv_notify_add state_inv_init)
  have h2: "is_var_name ''light.kitchen''" by (simp add: is_var_name_def)
  have h3: "registration ?st (subscription_key ''light.kitchen'') 0 = None"
    by (simp add: registration_notify_add, simp add: registration_def init_state_def)
  have "queues ?st 0 = []" by (simp add: notify_add_other init_state_def)
  with update_unregistered_delivers_nothing [OF h1 h2, of 0 5 "()"] h1 h2 h3
  show ?thesis by simp
qed

subsection \<open>Registration and removal\<close>

lemma notify_add_loop_skip:
  "\<not> is_var_name n \<Longrightarrow> notify_add_loop st vn q (n # rest) = notify_add_loop st vn q rest"
  by (simp add: is_var_name_def)

lemma notify_add_loop_append:
  "notify_add_loop st vn q (xs @ ys) = notify_add_loop (notify_add_loop st vn q xs) vn q ys"
  by (induction st vn q xs rule: notify_add_loop.induct) (simp_all add: Let_def)

lemma notify_keys_add_loop:
  "fst ` set (notify (notify_add_loop st vn q ns)) =
     fst ` set (notify st) \<union> subscription_key ` {m \<in> set ns. is_var_name m}"
proof (induction st vn q ns rule: notify_add_loop.induct)
  case (1 st var_names queue)
  then show ?case by simp
next
  case (2 st var_names queue var_name rest)
  show ?case
  proof (cases "is_var_name var_name")
    case False
    then have "{m \<in> set (var_name # rest). is_var_name m} = {m \<in> set rest. is_var_name m}"
      by auto
    with 2 False show ?thesis by (simp add: is_var_name_def Let_def)
  next
    case True
    then have ok: "\<not> (length (str_split (CHR ''.'') var_name) \<noteq> 2 \<and>
                      length (str_split (CHR ''.'') var_name) \<noteq> 3)"
      by (simp add: is_var_name_def)
    from True
    have "{m \<in> set (var_name # rest). is_var_name m} =
            insert var_name {m \<in> set rest. is_var_name m}"
      by auto
    then show ?thesis
      apply (subst notify_add_loop.simps)
      apply (simp only: Let_def ok if_False)
      apply (subst "2.IH"(2) [OF refl ok refl refl refl])
      apply (auto simp: dom_update subscription_key_def)
      done
  qed
qed

text \<open>
  C5: a name of the list whose number of periods is neither 1 nor 2 is skipped by
  \<open>notify_add\<close>: the call is the loop over the other names (the function is total on
  lists of strings, so nothing is raised), the keys of \<open>notify\<close> afterwards are the
  old ones and those of the well-formed names, and every well-formed name of the list is
  registered for the queue with the list as it was passed.
\<close>

theorem notify_add_skips_malformed:
  assumes "count_list n (CHR ''.'') \<noteq> 1" and "count_list n (CHR ''.'') \<noteq> 2"
    and "names = pre @ n # post"
  shows "notify_add st (NameList names) q =
           notify_add_loop st (NameList names) q (pre @ post) \<and>
         fst ` set (notify (notify_add st (NameList names) q)) =
           fst ` set (notify st) \<union> subscription_key ` {m \<in> set (pre @ post). is_var_name m} \<and>
         (\<forall>m \<in> set names. is_var_name m \<longrightarrow>
            registration (notify_add st (NameList names) q) (subscription_key m) q =
              Some (NameList names))"
proof -
  from assms(1,2) have bad: "\<not> is_var_name n" by (simp add: is_var_name_count)
  have eq: "notify_add st (NameList names) q =
              notify_add_loop st (NameList names) q (pre @ post)"
    by (simp only: notify_add_def as_list.simps assms(3) notify_add_loop_append
          notify_add_loop_skip [OF bad])
  have "fst ` set (notify (notify_add st (NameList names) q)) =
          fst ` set (notify st) \<union> subscription_key ` {m \<in> set (pre @ post). is_var_name m}"
    by (simp only: eq notify_keys_add_loop)
  moreover have "\<forall>m \<in> set names. is_var_name m \<longrightarrow>
            registration (notify_add st (NameList names) q) (subscription_key m) q =
              Some (NameList names)"
    by (auto simp: registration_notify_add)
  ultimately show ?thesis using eq by simp
qed

theorem notify_add_skips_malformed_witness:
  "count_list ''a.b.c.d'' (CHR ''.'') \<noteq> 1 \<and> count_list ''a.b.c.d'' (CHR ''.'') \<noteq> 2 \<and>
   notify (notify_add (init_state :: (int, unit) state)
             (NameList [''a'', ''light.kitchen'', ''a.b.c.d'', ''sensor.door.open'']) 0) =
     [(''light.kitchen'',
         [(0, NameList [''a'', ''light.kitchen'', ''a.b.c.d'', ''sensor.door.open''])]),
      (''sensor.door'',
         [(0, NameList [''a'', ''light.kitchen'', ''a.b.c.d'', ''sensor.door.open''])])]"
proof -
  have h1: "count_list ''a.b.c.d'' (CHR ''.'') \<noteq> 1" by simp
  have h2: "count_list ''a.b.c.d'' (CHR ''.'') \<noteq> 2" by simp
  have h3: "[''a'', ''light.kitchen'', ''a.b.c.d'', ''sensor.door.open''] =
              [''a'', ''light.kitchen''] @ ''a.b.c.d'' # [''sensor.door.open'']" by simp
  have "notify (notify_add_loop (init_state :: (int, unit) state)
           (NameList [''a'', ''light.kitchen'', ''a.b.c.d'', ''sensor.door.open'']) 0
           ([''a'', ''light.kitchen''] @ [''sensor.door.open''])) =
     [(''light.kitchen'',
         [(0, NameList [''a'', ''light.kitchen'', ''a.b.c.d'', ''sensor.door.open''])]),
      (''sensor.door'',
         [(0, NameList [''a'', ''light.kitchen'', ''a.b.c.d'', ''sensor.door.open''])])]"
    by (simp add: init_state_def state_var_name_def Let_def)
  with notify_add_skips_malformed [OF h1 h2 h3, of "init_state :: (int, unit) state" 0] h1 h2
  show ?thesis by simp
qed

lemma notify_del_loop_miss:
  assumes "is_var_name n" and "registration st (subscription_key n) q = None"
  shows "notify_del_loop st q (n # rest) = st"
proof -
  from assms(1) have ok: "\<not> (length (str_split (CHR ''.'') n) \<noteq> 2 \<and>
                             length (str_split (CHR ''.'') n) \<noteq> 3)"
    by (simp add: is_var_name_def)
  from assms(2) show ?thesis
    using ok
    by (auto simp: Let_def registration_def subscription_key_def split: option.splits)
qed

text \<open>
  C6: when \<open>notify_del\<close> has processed the names \<open>pre\<close> and comes to a
  well-formed name \<open>n\<close> for which the queue has no registration then (the key is not
  in \<open>notify\<close>, or the queue is not under it), the call returns the state it has
  reached: nothing is removed for \<open>n\<close> and the names after it are not processed.
\<close>

theorem notify_del_stops_at_first_miss:
  assumes "is_var_name n"
    and "registration (notify_del st (NameList pre) q) (subscription_key n) q = None"
  shows "notify_del st (NameList (pre @ n # rest)) q = notify_del st (NameList pre) q"
proof -
  have "registration (notify_del_loop s q pre) (subscription_key n) q = None \<Longrightarrow>
        notify_del_loop s q (pre @ n # rest) = notify_del_loop s q pre" for s :: "('a, 'b) state"
  proof (induction s q pre rule: notify_del_loop.induct)
    case (1 st queue)
    then show ?case by (simp add: notify_del_loop_miss [OF assms(1)] del: notify_del_loop.simps(2))
  next
    case (2 st queue var_name ps)
    show ?case
    proof (cases "is_var_name var_name")
      case False
      with 2 show ?thesis by (simp add: is_var_name_def Let_def)
    next
      case True
      then have ok: "\<not> (length (str_split (CHR ''.'') var_name) \<noteq> 2 \<and>
                        length (str_split (CHR ''.'') var_name) \<noteq> 3)"
        by (simp add: is_var_name_def)
      let ?name = "state_var_name (str_split (CHR ''.'') var_name)"
      show ?thesis
      proof (cases "map_of (notify st) ?name")
        case None
        with ok show ?thesis by (auto simp: Let_def)
      next
        case (Some inner)
        show ?thesis
        proof (cases "map_of inner queue = None")
          case True
          with Some ok show ?thesis by (auto simp: Let_def)
        next
          case False
          from "2.prems" Some False ok
          have "registration
                  (notify_del_loop
                     (st\<lparr>notify := AList.update ?name (AList.delete queue inner) (notify st)\<rparr>)
                     queue ps)
                  (subscription_key n) queue = None"
            by (auto simp: Let_def)
          from "2.IH"(2) [OF refl ok refl Some False this] show ?thesis
            using Some False ok by (auto simp: Let_def)
        qed
      qed
    qed
  qed
  with assms(2) show ?thesis by (simp add: notify_del_def)
qed

theorem notify_del_stops_at_first_miss_witness:
  "is_var_name ''x.y'' \<and>
   registration
     (notify_del (notify_add (init_state :: (int, unit) state) (NameList [''a.b'', ''c.d'']) 0)
        (NameList [''c.d'']) 0)
     (subscription_key ''x.y'') 0 = None \<and>
   notify_del (notify_add (init_state :: (int, unit) state) (NameList [''a.b'', ''c.d'']) 0)
     (NameList [''c.d'', ''x.y'', ''a.b'']) 0 =
   notify_del (notify_add (init_state :: (int, unit) state) (NameList [''a.b'', ''c.d'']) 0)
     (NameList [''c.d'']) 0 \<and>
   registration
     (notify_del (notify_add (init_state :: (int, unit) state) (NameList [''a.b'', ''c.d'']) 0)
        (NameList [''c.d'', ''x.y'', ''a.b'']) 0)
     ''a.b'' 0 = Some (NameList [''a.b'', ''c.d''])"
proof -
  let ?st = "notify_add (init_state :: (int, unit) state) (NameList [''a.b'', ''c.d'']) 0"
  have h1: "is_var_name ''x.y''" by (simp add: is_var_name_def)
  have n: "notify (notify_del ?st (NameList [''c.d'']) 0) =
             [(''a.b'', [(0, NameList [''a.b'', ''c.d''])]), (''c.d'', [])]"
    by (simp add: notify_del_def notify_add_def init_state_def state_var_name_def Let_def)
  have h2: "registration (notify_del ?st (NameList [''c.d'']) 0) (subscription_key ''x.y'') 0 = None"
    by (simp add: registration_def n subscription_key_def state_var_name_def)
  have r: "registration (notify_del ?st (NameList [''c.d'']) 0) ''a.b'' 0 =
             Some (NameList [''a.b'', ''c.d''])"
    by (simp add: registration_def n)
  from notify_del_stops_at_first_miss [OF h1 h2, of "[''a.b'']"] h1 h2 r
  show ?thesis by simp
qed

lemma notify_add_loop_fixed:
  "\<forall>n \<in> set ns. is_var_name n \<longrightarrow> registration st (subscription_key n) q = Some vn \<Longrightarrow>
   notify_add_loop st vn q ns = st"
proof (induction ns)
  case Nil
  then show ?case by simp
next
  case (Cons n ns)
  show ?case
  proof (cases "is_var_name n")
    case False
    with Cons show ?thesis by (simp add: is_var_name_def Let_def)
  next
    case True
    then have ok: "\<not> (length (str_split (CHR ''.'') n) \<noteq> 2 \<and>
                      length (str_split (CHR ''.'') n) \<noteq> 3)"
      by (simp add: is_var_name_def)
    let ?name = "state_var_name (str_split (CHR ''.'') n)"
    from Cons.prems True have "registration st ?name q = Some vn"
      by (simp add: subscription_key_def)
    then obtain inner where inner: "map_of (notify st) ?name = Some inner" "map_of inner q = Some vn"
      by (auto dest: registration_SomeD)
    then have "AList.update ?name (AList.update q vn inner) (notify st) = notify st"
      by (simp add: update_triv)
    with inner have "notify_add_loop st vn q (n # ns) = notify_add_loop st vn q ns"
      using ok by (auto simp: Let_def)
    with Cons show ?thesis by simp
  qed
qed

lemma entries_registration:
  assumes "state_inv st"
  shows "entries st key q = (case registration st key q of None \<Rightarrow> [] | Some vn \<Rightarrow> [(q, vn)])"
proof (cases "map_of (notify st) key")
  case None
  then show ?thesis by (simp add: entries_def registration_def)
next
  case (Some inner)
  from state_inv_inner [OF assms Some] have "distinct (map fst inner)" by simp
  with Some show ?thesis
    by (simp add: entries_def registration_def filter_key_distinct)
qed

text \<open>
  C7: \<open>notify_add\<close> with the same names and queue a second time leaves the state as
  the first call left it; and after any earlier registration \<open>vn1\<close> of the queue, a
  call with \<open>vn2\<close> leaves, under the key of each well-formed name of \<open>vn2\<close>, one
  item for the queue, holding \<open>vn2\<close>.
\<close>

theorem notify_add_idempotent:
  assumes "state_inv st"
  shows "notify_add (notify_add st vn c) vn c = notify_add st vn c \<and>
         (\<forall>n \<in> set (as_list vn2). is_var_name n \<longrightarrow>
            entries (notify_add (notify_add st vn1 c) vn2 c) (subscription_key n) c =
              [(c, vn2)])"
proof -
  have "notify_add_loop (notify_add st vn c) vn c (as_list vn) = notify_add st vn c"
    by (rule notify_add_loop_fixed) (auto simp: registration_notify_add)
  then have idem: "notify_add (notify_add st vn c) vn c = notify_add st vn c"
    by (simp add: notify_add_def)
  have "state_inv (notify_add (notify_add st vn1 c) vn2 c)"
    using assms by (intro state_inv_notify_add)
  then have "\<forall>n \<in> set (as_list vn2). is_var_name n \<longrightarrow>
            entries (notify_add (notify_add st vn1 c) vn2 c) (subscription_key n) c =
              [(c, vn2)]"
    by (auto simp: entries_registration registration_notify_add)
  with idem show ?thesis by simp
qed

theorem notify_add_idempotent_witness:
  "state_inv (init_state :: (int, unit) state) \<and>
   notify_add (notify_add (init_state :: (int, unit) state) (NameList [''a.b'', ''c.d.e'']) 0)
     (NameList [''a.b'', ''c.d.e'']) 0 =
   notify_add (init_state :: (int, unit) state) (NameList [''a.b'', ''c.d.e'']) 0 \<and>
   is_var_name ''a.b'' \<and>
   entries
     (notify_add (notify_add (init_state :: (int, unit) state) (NameList [''a.b'', ''c.d.e'']) 0)
        (NameList [''a.b'']) 0)
     (subscription_key ''a.b'') 0 = [(0, NameList [''a.b''])]"
proof -
  have h1: "state_inv (init_state :: (int, unit) state)" by (rule state_inv_init)
  have h2: "is_var_name ''a.b''" by (simp add: is_var_name_def)
  from notify_add_idempotent [OF h1, of "NameList [''a.b'', ''c.d.e'']" 0 "NameList [''a.b'']"
         "NameList [''a.b'', ''c.d.e'']"] h1 h2
  show ?thesis by simp
qed

subsection \<open>A bare string as the request\<close>

lemma last_key_count:
  "state_inv st \<Longrightarrow> count_list k (CHR ''.'') \<noteq> 1 \<Longrightarrow> map_of (notify_var_last st) k = None"
  by (cases "map_of (notify_var_last st) k") (auto simp: state_inv_def dest!: map_of_SomeD)

lemma notify_var_get_loop_chars:
  assumes "state_inv st"
  shows "notify_var_get_loop st (map (\<lambda>c. [c]) s) nv =
           (if CHR ''.'' \<in> set s
            then (case map_of (notify_var_last st) ''.'' of
                    None \<Rightarrow> nv | Some x \<Rightarrow> AList.update ''.'' x nv)
            else nv)"
proof (induction s arbitrary: nv)
  case Nil
  then show ?case by simp
next
  case (Cons ch s)
  show ?case
  proof (cases "ch = CHR ''.''")
    case True
    with Cons show ?thesis by (simp split: option.splits)
  next
    case False
    then have "count_list [ch] (CHR ''.'') \<noteq> 1" by simp
    with assms have "map_of (notify_var_last st) [ch] = None" by (rule last_key_count)
    with Cons False show ?thesis by simp
  qed
qed

lemma notify_var_get_loop_last:
  "notify_var_last st = notify_var_last st' \<Longrightarrow>
   notify_var_get_loop st ns nv = notify_var_get_loop st' ns nv"
proof (induction ns arbitrary: nv)
  case Nil
  then show ?case by simp
next
  case (Cons n ns)
  from Cons.prems have "map_of (notify_var_last st) n = map_of (notify_var_last st') n"
    by simp
  with Cons.IH [OF Cons.prems] show ?case
    by (simp split: option.splits)
qed

lemma notify_var_get_name:
  assumes "state_inv st" and "CHR ''.'' \<in> set k"
  shows "notify_var_get st (Name k) =
           (case map_of (notify_var_last st) ''.'' of None \<Rightarrow> [] | Some x \<Rightarrow> [(''.'', x)])"
  using assms(2)
  by (simp add: notify_var_get_def notify_var_get_loop_chars [OF assms(1)] split: option.splits)

text \<open>
  The name \<open>"."\<close> splits into two (empty) parts, so it is accepted as a name of two
  parts. Registered as a bare string it is its own only character: the message carries
  \<open>{".": v}\<close>, not an empty dictionary.
\<close>

theorem bare_string_registration_counterexample:
  "length (str_split (CHR ''.'') ''.'') = 2 \<and>
   queues (update (notify_add (init_state :: (int, unit) state) (Name ''.'') 0)
             [(''.'', 7)] ()) 0 =
     [Message ''state'' [(''.'', 7)] ()]"
  by (simp add: update_def notify_add_def init_state_def state_var_name_def Let_def
        notify_var_get_def)

text \<open>
  C10, as amended: for a name \<open>k\<close> of two parts passed to \<open>notify_add\<close> as a
  bare string, the registry stores the string itself for the queue, and
  \<open>update({k: v}, ctx)\<close> puts one message on the queue whose dictionary is built
  from the characters of \<open>k\<close>. Of these only the period can be a recorded name: the
  dictionary is \<open>{".": x}\<close> when \<open>"."\<close> has the last value \<open>x\<close> at that moment
  (as it has when \<open>k\<close> is \<open>"."\<close>), and empty otherwise; it is empty whenever
  \<open>k\<close> is not \<open>"."\<close> and \<open>"."\<close> had no recorded value before.
\<close>

theorem bare_string_registration:
  assumes "state_inv st" and "length (str_split (CHR ''.'') k) = 2"
  shows "let st1 = notify_add st (Name k) c;
             st2 = update st1 [(k, v)] ctx
         in registration st1 k c = Some (Name k) \<and>
            queues st2 c =
              queues st c @
              [Message ''state''
                 (case map_of (notify_var_last st2) ''.'' of
                    None \<Rightarrow> [] | Some x \<Rightarrow> [(''.'', x)]) ctx] \<and>
            (k \<noteq> ''.'' \<and> map_of (notify_var_last st) ''.'' = None \<longrightarrow>
               queues st2 c = queues st c @ [Message ''state'' [] ctx])"
proof -
  let ?st1 = "notify_add st (Name k) c"
  let ?st2 = "update ?st1 [(k, v)] ctx"
  let ?st1' = "?st1\<lparr>notify_var_last := AList.update k v (notify_var_last ?st1)\<rparr>"
  from assms(2) have vk: "is_var_name k" and key: "subscription_key k = k"
    by (simp_all add: is_var_name_def subscription_key_two_part)
  from assms(2) have "count_list k (CHR ''.'') = 1" by (simp add: length_str_split)
  then have dot: "CHR ''.'' \<in> set k"
    by (metis count_list_0_iff zero_neq_one)
  have inv1: "state_inv ?st1" using assms(1) by (rule state_inv_notify_add)
  then have inv2: "state_inv ?st2" by (rule state_inv_update)
  have reg: "registration ?st1 k c = Some (Name k)"
    using vk key by (simp add: registration_notify_add)
  then obtain inner where inner: "map_of (notify ?st1) k = Some inner"
    by (auto dest: registration_SomeD)
  then have last2: "notify_var_last ?st2 = notify_var_last ?st1'"
    by (simp add: update_single_last)
  have "notify_var_get ?st1' (Name k) =
          notify_var_get_loop ?st1' (map (\<lambda>c. [c]) k) []"
    by (simp add: notify_var_get_def)
  also have "\<dots> = notify_var_get_loop ?st2 (map (\<lambda>c. [c]) k) []"
    by (rule notify_var_get_loop_last) (simp add: last2)
  also have "\<dots> = (case map_of (notify_var_last ?st2) ''.'' of
                     None \<Rightarrow> [] | Some x \<Rightarrow> [(''.'', x)])"
    using dot by (simp add: notify_var_get_loop_chars [OF inv2] split: option.splits)
  finally have get: "notify_var_get ?st1' (Name k) =
      (case map_of (notify_var_last ?st2) ''.'' of None \<Rightarrow> [] | Some x \<Rightarrow> [(''.'', x)])" .
  have q: "queues ?st2 c =
             queues st c @
             [Message ''state''
                (case map_of (notify_var_last ?st2) ''.'' of
                   None \<Rightarrow> [] | Some x \<Rightarrow> [(''.'', x)]) ctx]"
    using get by (simp add: update_single_queue [OF inv1] reg notify_add_other)
  have "map_of (notify_var_last ?st2) ''.'' = None"
    if "k \<noteq> ''.''" "map_of (notify_var_last st) ''.'' = None"
    using that by (simp add: last2 update_conv' notify_add_other)
  with q reg show ?thesis by (simp add: Let_def)
qed

theorem bare_string_registration_witness:
  "state_inv (init_state :: (int, unit) state) \<and>
   length (str_split (CHR ''.'') ''a.b'') = 2 \<and>
   ''a.b'' \<noteq> ''.'' \<and>
   map_of (notify_var_last (init_state :: (int, unit) state)) ''.'' = None \<and>
   registration (notify_add (init_state :: (int, unit) state) (Name ''a.b'') 0) ''a.b'' 0 =
     Some (Name ''a.b'') \<and>
   queues (update (notify_add (init_state :: (int, unit) state) (Name ''a.b'') 0)
             [(''a.b'', 7)] ()) 0 =
     [Message ''state'' [] ()]"
proof -
  have h1: "state_inv (init_state :: (int, unit) state)" by (rule state_inv_init)
  have h2: "length (str_split (CHR ''.'') ''a.b'') = 2" by simp
  have h3: "''a.b'' \<noteq> ''.''" by simp
  have h4: "map_of (notify_var_last (init_state :: (int, unit) state)) ''.'' = None"
    by (simp add: init_state_def)
  have h5: "queues (init_state :: (int, unit) state) 0 = []" by (simp add: init_state_def)
  let ?st1 = "notify_add (init_state :: (int, unit) state) (Name ''a.b'') 0"
  from bare_string_registration [OF h1 h2, of 0 7 "()"] h3 h4
  have "registration ?st1 ''a.b'' 0 = Some (Name ''a.b'')"
    and "queues (update ?st1 [(''a.b'', 7)] ()) 0 =
           queues (init_state :: (int, unit) state) 0 @ [Message ''state'' [] ()]"
    unfolding Let_def by blast+
  with h1 h2 h3 h4 h5 show ?thesis by simp
qed

end
